theory Spec2Isabelle
  imports Main
begin

section \<open>Python values the registry handles\<close>

text \<open>
  The exceptions that the modelled code can meet: \<open>KeyError\<close> is what
  \<^verbatim>\<open>del d[k]\<close> raises on a missing key, \<open>IndexError\<close> what \<^verbatim>\<open>del xs[i]\<close>
  raises out of range, \<open>ValidationError\<close> what a pydantic model raises when a
  required field is not supplied, \<open>AttributeError\<close> what a method call raises on
  an object that has no such method.
\<close>

datatype py_error = KeyError | IndexError | ValidationError | AttributeError

text \<open>
  A value of Python's \<open>Any\<close> as it occurs in a \<open>meta\<close> mapping: JSON-like data.
  The registry is polymorphic in the type of meta values; this datatype is the
  instance used for concrete hierarchy hints such as \<^verbatim>\<open>{GROUPS_META_KEY: ["parent"]}\<close>.
\<close>

datatype pyval =
    PyNone
  | PyBool bool
  | PyInt int
  | PyStr string
  | PyList "pyval list"
  | PyDict "(string \<times> pyval) list"

text \<open>\<^verbatim>\<open>GROUPS_META_KEY\<close>, with the value the tests assert for it.\<close>

definition GROUPS_META_KEY :: string where
  "GROUPS_META_KEY = ''io.modelcontextprotocol/groups''"

section \<open>Insertion-ordered dictionaries\<close>

text \<open>
  A Python \<open>dict\<close> keeps its keys in insertion order, so it is modelled as an
  association list in that order. A dict never holds a key twice; the lists that
  stand for dicts have distinct keys (part of \<open>invar\<close> below).
\<close>

type_synonym ('k, 'v) pydict = "('k \<times> 'v) list"

text \<open>\<^verbatim>\<open>d.get(k)\<close>: the value stored under \<open>k\<close>, \<open>None\<close> when there is none. Never raises.\<close>

fun dict_get :: "('k, 'v) pydict \<Rightarrow> 'k \<Rightarrow> 'v option" where
  "dict_get [] k = None"
| "dict_get ((k', v) # d) k = (if k' = k then Some v else dict_get d k)"

text \<open>\<^verbatim>\<open>k in d\<close>.\<close>

fun dict_contains :: "('k, 'v) pydict \<Rightarrow> 'k \<Rightarrow> bool" where
  "dict_contains [] k = False"
| "dict_contains ((k', v) # d) k = (k' = k \<or> dict_contains d k)"

text \<open>
  \<^verbatim>\<open>d[k] = v\<close>: a key already present keeps its position and gets the new value,
  a new key goes to the end.
\<close>

fun dict_setitem :: "('k, 'v) pydict \<Rightarrow> 'k \<Rightarrow> 'v \<Rightarrow> ('k, 'v) pydict" where
  "dict_setitem [] k v = [(k, v)]"
| "dict_setitem ((k', v') # d) k v =
     (if k' = k then (k', v) # d else (k', v') # dict_setitem d k v)"

text \<open>\<^verbatim>\<open>del d[k]\<close>: removes the entry of \<open>k\<close>; raises \<open>KeyError\<close> when \<open>k\<close> is not a key.\<close>

definition dict_delitem :: "('k, 'v) pydict \<Rightarrow> 'k \<Rightarrow> py_error + ('k, 'v) pydict" where
  "dict_delitem d k =
     (if dict_contains d k then Inr (filter (\<lambda>p. fst p \<noteq> k) d) else Inl KeyError)"

text \<open>\<^verbatim>\<open>list(d.values())\<close>: a new list of the values, in the dict's order.\<close>

definition dict_values :: "('k, 'v) pydict \<Rightarrow> 'v list" where
  "dict_values d = map snd d"

section \<open>Group (groups/base.py)\<close>

text \<open>
  The pydantic model \<open>Group\<close>. \<open>Icon\<close> and \<open>Annotations\<close> come from \<^verbatim>\<open>mcp.types\<close>
  and are opaque here: the type parameters \<open>'i\<close> and \<open>'a\<close>. The parameter \<open>'v\<close>
  is the type of meta values (\<open>Any\<close>).
\<close>

record ('i, 'a, 'v) Group =
  name :: string
  title :: "string option"
  description :: "string option"
  icons :: "'i list option"
  annotations :: "'a option"
  meta :: "(string, 'v) pydict option"

text \<open>
  Constructing a \<open>Group\<close>: \<open>name\<close> is declared without a default, so pydantic
  raises \<open>ValidationError\<close> when it is not supplied (\<open>None\<close> for the first
  argument); every other field defaults to \<open>None\<close>. The field declaration puts no
  constraint on the string (no \<^verbatim>\<open>min_length\<close>, no pattern).
\<close>

definition Group_init ::
  "string option \<Rightarrow> string option \<Rightarrow> string option \<Rightarrow> 'i list option \<Rightarrow> 'a option \<Rightarrow>
   (string, 'v) pydict option \<Rightarrow> py_error + ('i, 'a, 'v) Group" where
  "Group_init n t d ic an m =
     (case n of
        None \<Rightarrow> Inl ValidationError
      | Some s \<Rightarrow>
          Inr \<lparr>name = s, title = t, description = d, icons = ic, annotations = an, meta = m\<rparr>)"

section \<open>GroupManager (groups/manager.py)\<close>

text \<open>
  The manager's two attributes, \<^verbatim>\<open>_groups\<close> and \<^verbatim>\<open>_warn_on_duplicate_groups\<close>
  (an Isabelle name cannot start with an underscore).
\<close>

record ('i, 'a, 'v) GroupManager =
  groups :: "(string, ('i, 'a, 'v) Group) pydict"
  warn_on_duplicate_groups :: bool

text \<open>
  A method call either raises or returns a value, the warnings it sent to the
  module's logger, and the manager as the call left it.
\<close>

type_synonym ('r, 'i, 'a, 'v) outcome =
  "py_error + ('r \<times> string list \<times> ('i, 'a, 'v) GroupManager)"

definition GroupManager_init :: "bool \<Rightarrow> ('i, 'a, 'v) GroupManager" where
  "GroupManager_init w = \<lparr>groups = [], warn_on_duplicate_groups = w\<rparr>"

text \<open>The text of the duplicate warning: \<^verbatim>\<open>f"Group '{group.name}' is already registered"\<close>.\<close>

definition duplicate_warning :: "string \<Rightarrow> string" where
  "duplicate_warning n = ''Group '' @ [CHR 0x27] @ n @ [CHR 0x27] @ '' is already registered''"

text \<open>
  \<^verbatim>\<open>add_group\<close>. The test \<^verbatim>\<open>if existing:\<close> is Python truthiness: \<open>None\<close> is
  false, and a \<open>Group\<close> is true whatever its fields (a pydantic model defines neither
  \<^verbatim>\<open>__bool__\<close> nor \<^verbatim>\<open>__len__\<close>).
\<close>

definition add_group ::
  "('i, 'a, 'v) GroupManager \<Rightarrow> ('i, 'a, 'v) Group \<Rightarrow>
   (('i, 'a, 'v) Group, 'i, 'a, 'v) outcome" where
  "add_group self grp =
     (case dict_get (groups self) (name grp) of
        Some existing \<Rightarrow>
          Inr (existing,
               (if warn_on_duplicate_groups self then [duplicate_warning (name grp)] else []),
               self)
      | None \<Rightarrow>
          Inr (grp, [], self\<lparr>groups := dict_setitem (groups self) (name grp) grp\<rparr>))"

definition get_group ::
  "('i, 'a, 'v) GroupManager \<Rightarrow> string \<Rightarrow> (('i, 'a, 'v) Group option, 'i, 'a, 'v) outcome" where
  "get_group self n = Inr (dict_get (groups self) n, [], self)"

definition remove_group ::
  "('i, 'a, 'v) GroupManager \<Rightarrow> string \<Rightarrow> (unit, 'i, 'a, 'v) outcome" where
  "remove_group self n =
     (if dict_contains (groups self) n then
        (case dict_delitem (groups self) n of
           Inl e \<Rightarrow> Inl e
         | Inr d \<Rightarrow> Inr ((), [], self\<lparr>groups := d\<rparr>))
      else Inr ((), [], self))"

definition list_groups ::
  "('i, 'a, 'v) GroupManager \<Rightarrow> (('i, 'a, 'v) Group list, 'i, 'a, 'v) outcome" where
  "list_groups self = Inr (dict_values (groups self), [], self)"

text \<open>
  The representation invariant of a manager: its dict has no key twice, and every
  record is stored under its own name (\<open>add_group\<close> is the only writer and stores
  \<open>group\<close> under \<open>group.name\<close>).
\<close>

definition invar :: "('i, 'a, 'v) GroupManager \<Rightarrow> bool" where
  "invar m \<longleftrightarrow>
     distinct (map fst (groups m)) \<and> list_all (\<lambda>p. name (snd p) = fst p) (groups m)"

section \<open>Sequences of calls\<close>

datatype ('i, 'a, 'v) call =
    AddGroup "('i, 'a, 'v) Group"
  | GetGroup string
  | RemoveGroup string
  | ListGroups

datatype ('i, 'a, 'v) retval =
    RGroup "('i, 'a, 'v) Group"
  | ROptGroup "('i, 'a, 'v) Group option"
  | RNone
  | RList "('i, 'a, 'v) Group list"

text \<open>Tags the value a method returned with the method's return type.\<close>

definition returning ::
  "('r \<Rightarrow> ('i, 'a, 'v) retval) \<Rightarrow> ('r, 'i, 'a, 'v) outcome \<Rightarrow>
   (('i, 'a, 'v) retval, 'i, 'a, 'v) outcome" where
  "returning tag out =
     (case out of Inl e \<Rightarrow> Inl e | Inr (r, l, m) \<Rightarrow> Inr (tag r, l, m))"

fun call_method ::
  "('i, 'a, 'v) GroupManager \<Rightarrow> ('i, 'a, 'v) call \<Rightarrow>
   (('i, 'a, 'v) retval, 'i, 'a, 'v) outcome" where
  "call_method m (AddGroup g) = returning RGroup (add_group m g)"
| "call_method m (GetGroup n) = returning ROptGroup (get_group m n)"
| "call_method m (RemoveGroup n) = returning (\<lambda>_. RNone) (remove_group m n)"
| "call_method m ListGroups = returning RList (list_groups m)"

text \<open>
  Runs the calls in order on one manager; an exception ends the run. The result holds
  the returned values, the warnings logged, and the final manager.
\<close>

fun run_calls ::
  "('i, 'a, 'v) GroupManager \<Rightarrow> ('i, 'a, 'v) call list \<Rightarrow>
   (('i, 'a, 'v) retval list, 'i, 'a, 'v) outcome" where
  "run_calls m [] = Inr ([], [], m)"
| "run_calls m (c # cs) =
     (case call_method m c of
        Inl e \<Rightarrow> Inl e
      | Inr (r, l, m') \<Rightarrow>
          (case run_calls m' cs of
             Inl e \<Rightarrow> Inl e
           | Inr (rs, ls, m'') \<Rightarrow> Inr (r # rs, l @ ls, m'')))"

text \<open>
  The registry as the specification describes it, independent of the dict: a partial
  map from names to the record present under that name together with the number of the
  call that inserted it. Adding an absent name inserts the record at the current call
  number, adding a present name changes nothing, removing a name deletes its entry,
  and the reading calls change nothing. \<open>i\<close> is the number of the next call.
\<close>

fun spec_registry ::
  "(string \<rightharpoonup> nat \<times> ('i, 'a, 'v) Group) \<Rightarrow> nat \<Rightarrow> ('i, 'a, 'v) call list \<Rightarrow>
   (string \<rightharpoonup> nat \<times> ('i, 'a, 'v) Group)" where
  "spec_registry t i [] = t"
| "spec_registry t i (AddGroup g # cs) =
     spec_registry (if t (name g) = None then t(name g \<mapsto> (i, g)) else t) (Suc i) cs"
| "spec_registry t i (RemoveGroup n # cs) = spec_registry (t(n := None)) (Suc i) cs"
| "spec_registry t i (GetGroup n # cs) = spec_registry t (Suc i) cs"
| "spec_registry t i (ListGroups # cs) = spec_registry t (Suc i) cs"

text \<open>
  In a specification registry, \<open>g\<close> was inserted before \<open>h\<close>: both are present, and
  the insertion number of \<open>g\<close> is the smaller one.
\<close>

definition inserted_before ::
  "(string \<rightharpoonup> nat \<times> ('i, 'a, 'v) Group) \<Rightarrow> ('i, 'a, 'v) Group \<Rightarrow> ('i, 'a, 'v) Group \<Rightarrow> bool"
  where
  "inserted_before t g h =
     (case (t (name g), t (name h)) of
        (Some (i, g'), Some (j, h')) \<Rightarrow> g' = g \<and> h' = h \<and> i < j
      | _ \<Rightarrow> False)"

text \<open>
  The relation between a manager's dict and a specification registry at call number
  \<open>i\<close> that the proofs maintain along a run.
\<close>

definition agrees ::
  "(string \<rightharpoonup> nat \<times> ('i, 'a, 'v) Group) \<Rightarrow> nat \<Rightarrow> (string, ('i, 'a, 'v) Group) pydict \<Rightarrow> bool"
  where
  "agrees t i d \<longleftrightarrow>
     distinct (map fst d) \<and>
     list_all (\<lambda>p. name (snd p) = fst p) d \<and>
     (\<forall>k. map_option snd (t k) = dict_get d k) \<and>
     (\<forall>k j g. t k = Some (j, g) \<longrightarrow> j < i) \<and>
     sorted_wrt (<) (map (\<lambda>p. fst (the (t (fst p)))) d)"

section \<open>The groups of the tests\<close>

text \<open>
  \<^verbatim>\<open>Group(name="parent", title="Parent Group")\<close> and
  \<^verbatim>\<open>Group(name="child", title="Child Group", meta={GROUPS_META_KEY: ["parent"]})\<close>.
\<close>

definition parent_group :: "(unit, unit, pyval) Group" where
  "parent_group =
     \<lparr>name = ''parent'', title = Some ''Parent Group'', description = None, icons = None,
      annotations = None, meta = None\<rparr>"

definition child_group :: "(unit, unit, pyval) Group" where
  "child_group =
     \<lparr>name = ''child'', title = Some ''Child Group'', description = None, icons = None,
      annotations = None, meta = Some [(GROUPS_META_KEY, PyList [PyStr ''parent''])]\<rparr>"

text \<open>\<^verbatim>\<open>Group(name="dup", title="Duplicate")\<close> and a second record of the same name.\<close>

definition dup_group :: "(unit, unit, pyval) Group" where
  "dup_group =
     \<lparr>name = ''dup'', title = Some ''Duplicate'', description = None, icons = None,
      annotations = None, meta = None\<rparr>"

definition dup_group_other :: "(unit, unit, pyval) Group" where
  "dup_group_other =
     \<lparr>name = ''dup'', title = Some ''Another title'', description = Some ''changed'',
      icons = None, annotations = None, meta = Some [(''k'', PyInt 1)]\<rparr>"


text \<open>A manager in which \<^verbatim>\<open>"dup"\<close> is registered, warnings on.\<close>

definition dup_manager :: "(unit, unit, pyval) GroupManager" where
  "dup_manager = \<lparr>groups = [(''dup'', dup_group)], warn_on_duplicate_groups = True\<rparr>"

text \<open>Managers holding the parent and child groups of the tests.\<close>

definition two_manager :: "(unit, unit, pyval) GroupManager" where
  "two_manager =
     \<lparr>groups = [(''parent'', parent_group), (''child'', child_group)],
      warn_on_duplicate_groups = True\<rparr>"

definition child_manager :: "(unit, unit, pyval) GroupManager" where
  "child_manager = \<lparr>groups = [(''child'', child_group)], warn_on_duplicate_groups = True\<rparr>"

text \<open>\<^verbatim>\<open>Group(name="")\<close>.\<close>

definition unnamed_group :: "(unit, unit, pyval) Group" where
  "unnamed_group =
     \<lparr>name = '''', title = None, description = None, icons = None, annotations = None,
      meta = None\<rparr>"

section \<open>Objects and references\<close>

text \<open>
  Python hands out references: the manager's \<^verbatim>\<open>_groups\<close> attribute refers to a dict
  object, and \<^verbatim>\<open>list(self._groups.values())\<close> builds a new list object and returns a
  reference to it. To speak about who can change what, the dict and the lists live in a
  store of objects, addressed by numbers; \<open>next_addr\<close> is the address the next new
  object gets. The records in the containers are kept as values: no method of the manager
  assigns to a field of a \<open>Group\<close>.
\<close>

type_synonym addr = nat

datatype ('i, 'a, 'v) obj =
    DictObj "(string, ('i, 'a, 'v) Group) pydict"
  | ListObj "('i, 'a, 'v) Group list"

record ('i, 'a, 'v) store =
  objs :: "addr \<Rightarrow> ('i, 'a, 'v) obj option"
  next_addr :: addr

definition alloc :: "('i, 'a, 'v) store \<Rightarrow> ('i, 'a, 'v) obj \<Rightarrow> addr \<times> ('i, 'a, 'v) store" where
  "alloc s ob = (next_addr s, s\<lparr>objs := (objs s)(next_addr s \<mapsto> ob), next_addr := Suc (next_addr s)\<rparr>)"

text \<open>A manager object: the reference in \<^verbatim>\<open>_groups\<close> and the flag.\<close>

record manager_ref =
  groups_ref :: addr
  warn_ref :: bool

text \<open>\<^verbatim>\<open>GroupManager(warn_on_duplicate_groups)\<close>: \<^verbatim>\<open>self._groups = {}\<close> makes a new dict object.\<close>

definition new_manager :: "('i, 'a, 'v) store \<Rightarrow> bool \<Rightarrow> manager_ref \<times> ('i, 'a, 'v) store" where
  "new_manager s w =
     (case alloc s (DictObj (groups (GroupManager_init w))) of
        (a, s') \<Rightarrow> (\<lparr>groups_ref = a, warn_ref = w\<rparr>, s'))"

text \<open>
  Runs a method of the manager on the dict object that \<^verbatim>\<open>_groups\<close> refers to and
  writes the dict it leaves back to the same address: the methods change the dict in
  place and never rebind \<^verbatim>\<open>_groups\<close>. The methods are those of a dict, so an address
  that holds no dict gives \<open>AttributeError\<close>.
\<close>

definition with_manager ::
  "('i, 'a, 'v) store \<Rightarrow> manager_ref \<Rightarrow>
   (('i, 'a, 'v) GroupManager \<Rightarrow> ('r, 'i, 'a, 'v) outcome) \<Rightarrow>
   py_error + ('r \<times> string list \<times> ('i, 'a, 'v) store)" where
  "with_manager s self method =
     (case objs s (groups_ref self) of
        Some (DictObj d) \<Rightarrow>
          (case method \<lparr>groups = d, warn_on_duplicate_groups = warn_ref self\<rparr> of
             Inl e \<Rightarrow> Inl e
           | Inr (r, l, m') \<Rightarrow>
               Inr (r, l, s\<lparr>objs := (objs s)(groups_ref self \<mapsto> DictObj (groups m'))\<rparr>))
      | _ \<Rightarrow> Inl AttributeError)"

text \<open>\<^verbatim>\<open>list_groups\<close> in the store: the list it returns is a new object.\<close>

definition list_groups_ref ::
  "('i, 'a, 'v) store \<Rightarrow> manager_ref \<Rightarrow> py_error + (addr \<times> string list \<times> ('i, 'a, 'v) store)" where
  "list_groups_ref s self =
     (case with_manager s self list_groups of
        Inl e \<Rightarrow> Inl e
      | Inr (xs, l, s') \<Rightarrow> (case alloc s' (ListObj xs) of (a, s'') \<Rightarrow> Inr (a, l, s'')))"

text \<open>One call on the manager object, keeping only the store it leaves.\<close>

fun call_ref ::
  "('i, 'a, 'v) store \<Rightarrow> manager_ref \<Rightarrow> ('i, 'a, 'v) call \<Rightarrow> py_error + ('i, 'a, 'v) store" where
  "call_ref s self (AddGroup g) =
     (case with_manager s self (\<lambda>m. add_group m g) of Inl e \<Rightarrow> Inl e | Inr (r, l, s') \<Rightarrow> Inr s')"
| "call_ref s self (GetGroup n) =
     (case with_manager s self (\<lambda>m. get_group m n) of Inl e \<Rightarrow> Inl e | Inr (r, l, s') \<Rightarrow> Inr s')"
| "call_ref s self (RemoveGroup n) =
     (case with_manager s self (\<lambda>m. remove_group m n) of Inl e \<Rightarrow> Inl e | Inr (r, l, s') \<Rightarrow> Inr s')"
| "call_ref s self ListGroups =
     (case list_groups_ref s self of Inl e \<Rightarrow> Inl e | Inr (a, l, s') \<Rightarrow> Inr s')"

fun run_calls_ref ::
  "('i, 'a, 'v) store \<Rightarrow> manager_ref \<Rightarrow> ('i, 'a, 'v) call list \<Rightarrow> py_error + ('i, 'a, 'v) store"
  where
  "run_calls_ref s self [] = Inr s"
| "run_calls_ref s self (c # cs) =
     (case call_ref s self c of Inl e \<Rightarrow> Inl e | Inr s' \<Rightarrow> run_calls_ref s' self cs)"

text \<open>
  What a caller can do to a list it holds: \<^verbatim>\<open>xs.append(g)\<close> and \<^verbatim>\<open>del xs[i]\<close>, the
  latter with Python's indices (a negative index counts from the end, an index out of
  range raises \<open>IndexError\<close> and changes nothing).
\<close>

datatype ('i, 'a, 'v) list_op = Append "('i, 'a, 'v) Group" | Delete int

text \<open>The position an index in range stands for, and the list without that position.\<close>

definition position :: "'x list \<Rightarrow> int \<Rightarrow> nat" where
  "position xs i = nat (if i < 0 then i + int (length xs) else i)"

definition remove_at :: "nat \<Rightarrow> 'x list \<Rightarrow> 'x list" where
  "remove_at k xs = take k xs @ drop (Suc k) xs"

fun list_op_ref ::
  "('i, 'a, 'v) store \<Rightarrow> addr \<Rightarrow> ('i, 'a, 'v) list_op \<Rightarrow> py_error + ('i, 'a, 'v) store" where
  "list_op_ref s a (Append g) =
     (case objs s a of
        Some (ListObj xs) \<Rightarrow> Inr (s\<lparr>objs := (objs s)(a \<mapsto> ListObj (xs @ [g]))\<rparr>)
      | _ \<Rightarrow> Inl AttributeError)"
| "list_op_ref s a (Delete i) =
     (case objs s a of
        Some (ListObj xs) \<Rightarrow>
          (if - int (length xs) \<le> i \<and> i < int (length xs)
           then Inr (s\<lparr>objs := (objs s)(a \<mapsto> ListObj (remove_at (position xs i) xs))\<rparr>)
           else Inl IndexError)
      | _ \<Rightarrow> Inl AttributeError)"

text \<open>
  Runs list operations until one raises: the result is that error, if any, and the store
  as it is then.
\<close>

fun run_list_ops ::
  "('i, 'a, 'v) store \<Rightarrow> addr \<Rightarrow> ('i, 'a, 'v) list_op list \<Rightarrow>
   py_error option \<times> ('i, 'a, 'v) store" where
  "run_list_ops s a [] = (None, s)"
| "run_list_ops s a (x # xs) =
     (case list_op_ref s a x of Inl e \<Rightarrow> (Some e, s) | Inr s' \<Rightarrow> run_list_ops s' a xs)"

text \<open>A store whose only object is the dict of a manager holding the parent and the child.\<close>

definition two_store :: "(unit, unit, pyval) store" where
  "two_store =
     \<lparr>objs = (\<lambda>_. None)(0 \<mapsto> DictObj [(''parent'', parent_group), (''child'', child_group)]),
      next_addr = 1\<rparr>"

definition two_ref :: manager_ref where
  "two_ref = \<lparr>groups_ref = 0, warn_ref = True\<rparr>"

section \<open>Capability advertisement and the default list handler\<close>

text \<open>
  Modelled from the spec: the request types a handler can be registered for. The
  low-level server (\<^verbatim>\<open>mcp/server/lowlevel/server.py\<close>) and \<^verbatim>\<open>mcp.types\<close> are not among
  the sources; the tests name \<^verbatim>\<open>ListGroupsRequest\<close> as the key of the handler table.
\<close>

datatype request_type = ListGroupsRequest | OtherRequest string

text \<open>
  Modelled from the spec: \<^verbatim>\<open>NotificationOptions\<close>, the configured notification policy,
  reduced to the flag for groups, which the tests show to default to \<open>False\<close>.
\<close>

record NotificationOptions =
  groups_changed :: bool

definition NotificationOptions_init :: NotificationOptions where
  "NotificationOptions_init = \<lparr>groups_changed = False\<rparr>"

text \<open>
  Modelled from the spec: the capability descriptor for groups, with its nested
  \<^verbatim>\<open>list_changed\<close> flag, and the server's advertised capabilities, in which the groups
  capability is present or absent (\<^verbatim>\<open>capabilities.groups\<close>; the field is named
  \<open>groups_capability\<close> here).
\<close>

record GroupsCapability =
  list_changed :: bool

record ServerCapabilities =
  groups_capability :: "GroupsCapability option"

text \<open>
  Modelled from the spec: the low-level server with its table of request handlers,
  empty when the server is constructed; \<open>'h\<close> is the type of handlers.
\<close>

record 'h Server =
  request_handlers :: "(request_type, 'h) pydict"

definition Server_init :: "'h Server" where
  "Server_init = \<lparr>request_handlers = []\<rparr>"

text \<open>
  Modelled from the spec: the decorator \<^verbatim>\<open>@server.list_groups()\<close>, which installs the
  handler for list requests in the table.
\<close>

definition register_list_groups :: "'h Server \<Rightarrow> 'h \<Rightarrow> 'h Server" where
  "register_list_groups srv h =
     srv\<lparr>request_handlers := dict_setitem (request_handlers srv) ListGroupsRequest h\<rparr>"

text \<open>
  Modelled from the spec: \<^verbatim>\<open>get_capabilities\<close>. The groups capability is in the
  advertised set if and only if a list handler is registered, and then its
  \<^verbatim>\<open>list_changed\<close> is the configured notification option; with no handler the
  capability is absent.
\<close>

definition get_capabilities :: "'h Server \<Rightarrow> NotificationOptions \<Rightarrow> ServerCapabilities" where
  "get_capabilities srv opts =
     \<lparr>groups_capability =
        (if dict_contains (request_handlers srv) ListGroupsRequest
         then Some \<lparr>list_changed = groups_changed opts\<rparr>
         else None)\<rparr>"

text \<open>
  Modelled from the spec: the result envelope of a list request, an ordered sequence of
  records and an optional \<^verbatim>\<open>nextCursor\<close>.
\<close>

record ('i, 'a, 'v) ListGroupsResult =
  result_groups :: "('i, 'a, 'v) Group list"
  nextCursor :: "string option"

text \<open>
  Modelled from the spec: the default list handler of \<^verbatim>\<open>FastMCP\<close> (its
  \<^verbatim>\<open>server.py\<close> is not among the sources). It ignores the cursor of the request and
  returns the full contents of the registry's \<open>list_groups\<close> as a single page with no
  \<^verbatim>\<open>nextCursor\<close>.
\<close>

definition default_list_groups ::
  "('i, 'a, 'v) GroupManager \<Rightarrow> string option \<Rightarrow> py_error + ('i, 'a, 'v) ListGroupsResult" where
  "default_list_groups m cursor =
     (case list_groups m of
        Inl e \<Rightarrow> Inl e
      | Inr (xs, l, m') \<Rightarrow> Inr \<lparr>result_groups = xs, nextCursor = None\<rparr>)"

section \<open>Facts about dictionaries\<close>

lemma dict_contains_iff: "dict_contains d k \<longleftrightarrow> k \<in> fst ` set d"
  by (induction d) auto

lemma dict_get_None_iff: "dict_get d k = None \<longleftrightarrow> \<not> dict_contains d k"
  by (induction d) (auto split: if_splits)

lemma dict_get_setitem: "dict_get (dict_setitem d k v) k' = (if k' = k then Some v else dict_get d k')"
  by (induction d) auto

lemma dict_get_filter_same: "dict_get (filter (\<lambda>p. fst p \<noteq> k) d) k = None"
  by (induction d) auto

lemma dict_get_filter_other: "k' \<noteq> k \<Longrightarrow> dict_get (filter (\<lambda>p. fst p \<noteq> k) d) k' = dict_get d k'"
  by (induction d) auto

lemma filter_absent: "\<not> dict_contains d k \<Longrightarrow> filter (\<lambda>p. fst p \<noteq> k) d = d"
  by (induction d) auto

section \<open>The methods, case by case, and the invariant\<close>

lemma dict_setitem_absent: "\<not> dict_contains d k \<Longrightarrow> dict_setitem d k v = d @ [(k, v)]"
  by (induction d) auto

lemma invar_init: "invar (GroupManager_init w)"
  by (simp add: invar_def GroupManager_init_def)

lemma add_group_cases:
  "add_group m g =
     (if dict_contains (groups m) (name g)
      then Inr (the (dict_get (groups m) (name g)),
                (if warn_on_duplicate_groups m then [duplicate_warning (name g)] else []), m)
      else Inr (g, [], m\<lparr>groups := groups m @ [(name g, g)]\<rparr>))"
proof (cases "dict_get (groups m) (name g)")
  case None
  then have "\<not> dict_contains (groups m) (name g)"
    by (simp add: dict_get_None_iff)
  with None show ?thesis
    by (simp add: add_group_def dict_setitem_absent)
next
  case (Some e)
  then have "dict_contains (groups m) (name g)"
    using dict_get_None_iff [of "groups m" "name g"] by simp
  with Some show ?thesis
    by (simp add: add_group_def)
qed

lemma remove_group_eq:
  "remove_group m n = Inr ((), [], m\<lparr>groups := filter (\<lambda>p. fst p \<noteq> n) (groups m)\<rparr>)"
  by (simp add: remove_group_def dict_delitem_def filter_absent)

lemma add_group_invar: "invar m \<Longrightarrow> add_group m g = Inr (r, l, m') \<Longrightarrow> invar m'"
  by (auto simp: add_group_cases invar_def dict_contains_iff split: if_splits)

lemma remove_group_invar: "invar m \<Longrightarrow> remove_group m n = Inr (r, l, m') \<Longrightarrow> invar m'"
  by (auto simp: remove_group_eq invar_def distinct_map_filter list_all_iff)

lemma call_method_total: "\<exists>r l m'. call_method m c = Inr (r, l, m')"
  by (cases c)
     (simp_all add: returning_def add_group_cases get_group_def remove_group_eq list_groups_def)

lemma call_method_invar: "invar m \<Longrightarrow> call_method m c = Inr (r, l, m') \<Longrightarrow> invar m'"
  by (cases c)
     (auto simp: returning_def get_group_def list_groups_def
           split: sum.splits dest: add_group_invar remove_group_invar)

lemma run_calls_total: "\<exists>rs l m'. run_calls m cs = Inr (rs, l, m')"
proof (induction cs arbitrary: m)
  case Nil
  show ?case by simp
next
  case (Cons c cs)
  obtain r l m1 where step: "call_method m c = Inr (r, l, m1)"
    using call_method_total by blast
  obtain rs ls m2 where rest: "run_calls m1 cs = Inr (rs, ls, m2)"
    using Cons.IH by blast
  from step rest show ?case by simp
qed

lemma run_calls_invar: "invar m \<Longrightarrow> run_calls m cs = Inr (rs, l, m') \<Longrightarrow> invar m'"
proof (induction cs arbitrary: m rs l)
  case Nil
  then show ?case by simp
next
  case (Cons c cs)
  obtain r l1 m1 where step: "call_method m c = Inr (r, l1, m1)"
    using call_method_total by blast
  with Cons.prems(1) have inv1: "invar m1"
    by (rule call_method_invar)
  from step Cons.prems(2) obtain rs' l2 where "run_calls m1 cs = Inr (rs', l2, m')"
    by (auto split: sum.splits)
  with inv1 show ?case
    by (rule Cons.IH)
qed

lemma reachable_invar:
  "\<exists>rs l m'. run_calls (GroupManager_init w) cs = Inr (rs, l, m') \<and> invar m'"
proof -
  obtain rs l m' where run: "run_calls (GroupManager_init w) cs = Inr (rs, l, m')"
    using run_calls_total by blast
  with invar_init have "invar m'"
    by (rule run_calls_invar)
  with run show ?thesis
    by blast
qed

section \<open>Re-registering a name\<close>

lemma add_group_stored:
  "\<exists>r l m1. add_group m g = Inr (r, l, m1) \<and> dict_get (groups m1) (name g) = Some r
     \<and> (r = g \<or> dict_get (groups m) (name g) = Some r)"
  by (cases "dict_get (groups m) (name g)") (simp_all add: add_group_def dict_get_setitem)

lemma add_group_registered:
  "dict_get (groups m) (name g) = Some e \<Longrightarrow>
   add_group m g =
     Inr (e, (if warn_on_duplicate_groups m then [duplicate_warning (name g)] else []), m)"
  by (simp add: add_group_def)

text \<open>
  C1. When a record is already stored under the name of \<open>g\<close>, \<open>add_group\<close> returns
  that stored record, does not raise and hands back the manager unchanged (at most a
  warning is logged, when the flag is set). Hence a second \<open>add_group\<close> with the same
  name, whatever its other fields, returns what the first call returned (the first
  record, or the one stored before it under that name) and leaves the manager as the
  first call left it.
\<close>

theorem add_group_existing_noop:
  "(dict_get (groups m) (name g) = Some e \<longrightarrow>
      add_group m g =
        Inr (e, (if warn_on_duplicate_groups m then [duplicate_warning (name g)] else []), m))
   \<and> (name g2 = name g1 \<longrightarrow>
        (\<exists>r l1 m1 l2.
           add_group m0 g1 = Inr (r, l1, m1) \<and>
           (r = g1 \<or> dict_get (groups m0) (name g1) = Some r) \<and>
           add_group m1 g2 = Inr (r, l2, m1) \<and>
           get_group m1 (name g1) = Inr (Some r, [], m1)))"
proof (intro conjI impI)
  assume "dict_get (groups m) (name g) = Some e"
  then show "add_group m g =
      Inr (e, (if warn_on_duplicate_groups m then [duplicate_warning (name g)] else []), m)"
    by (rule add_group_registered)
next
  assume same: "name g2 = name g1"
  obtain r l1 m1 where first: "add_group m0 g1 = Inr (r, l1, m1)"
    and stored: "dict_get (groups m1) (name g1) = Some r"
    and which: "r = g1 \<or> dict_get (groups m0) (name g1) = Some r"
    using add_group_stored by blast
  from stored same have "dict_get (groups m1) (name g2) = Some r"
    by simp
  then have second: "add_group m1 g2 =
      Inr (r, (if warn_on_duplicate_groups m1 then [duplicate_warning (name g2)] else []), m1)"
    by (rule add_group_registered)
  from stored have "get_group m1 (name g1) = Inr (Some r, [], m1)"
    by (simp add: get_group_def)
  with first which second show "\<exists>r l1 m1 l2.
      add_group m0 g1 = Inr (r, l1, m1) \<and>
      (r = g1 \<or> dict_get (groups m0) (name g1) = Some r) \<and>
      add_group m1 g2 = Inr (r, l2, m1) \<and>
      get_group m1 (name g1) = Inr (Some r, [], m1)"
    by blast
qed

theorem add_group_existing_noop_witness:
  "dict_get (groups dup_manager) (name dup_group_other) = Some dup_group
   \<and> add_group dup_manager dup_group_other =
       Inr (dup_group, [duplicate_warning ''dup''], dup_manager)
   \<and> name dup_group_other = name dup_group
   \<and> (\<exists>l2.
         add_group (GroupManager_init True) dup_group = Inr (dup_group, [], dup_manager) \<and>
         add_group dup_manager dup_group_other = Inr (dup_group, l2, dup_manager) \<and>
         get_group dup_manager (name dup_group) = Inr (Some dup_group, [], dup_manager))"
  using add_group_existing_noop
    [of dup_manager dup_group_other dup_group dup_group_other dup_group "GroupManager_init True"]
  by (simp add: add_group_def get_group_def GroupManager_init_def dup_manager_def dup_group_def
        dup_group_other_def)

section \<open>Removal\<close>

lemma values_filter_names:
  "list_all (\<lambda>p. name (snd p) = fst p) d \<Longrightarrow>
   dict_values (filter (\<lambda>p. fst p \<noteq> n) d) = filter (\<lambda>g. name g \<noteq> n) (dict_values d)"
  by (induction d) (auto simp: dict_values_def)

text \<open>
  C5. \<open>remove_group\<close> never raises. It returns the manager without any entry for \<open>n\<close>:
  a lookup of \<open>n\<close> then finds nothing, every other name is looked up as before, the
  remaining records keep their order, and when \<open>n\<close> was not registered the manager is
  returned as it was. Removing \<open>n\<close> a second time succeeds again and changes nothing.
\<close>

theorem remove_group_total_idempotent:
  "\<exists>m'. remove_group m n = Inr ((), [], m')
     \<and> remove_group m' n = Inr ((), [], m')
     \<and> get_group m' n = Inr (None, [], m')
     \<and> (\<forall>k. k \<noteq> n \<longrightarrow> dict_get (groups m') k = dict_get (groups m) k)
     \<and> groups m' = filter (\<lambda>p. fst p \<noteq> n) (groups m)
     \<and> warn_on_duplicate_groups m' = warn_on_duplicate_groups m
     \<and> (\<not> dict_contains (groups m) n \<longrightarrow> m' = m)
     \<and> (invar m \<longrightarrow>
          invar m' \<and>
          dict_values (groups m') = filter (\<lambda>g. name g \<noteq> n) (dict_values (groups m)))"
proof -
  define m' where "m' = m\<lparr>groups := filter (\<lambda>p. fst p \<noteq> n) (groups m)\<rparr>"
  have first: "remove_group m n = Inr ((), [], m')"
    by (simp add: remove_group_eq m'_def)
  have second: "remove_group m' n = Inr ((), [], m')"
    by (simp add: remove_group_eq m'_def)
  have gone: "get_group m' n = Inr (None, [], m')"
    by (simp add: get_group_def m'_def dict_get_filter_same)
  have others: "\<forall>k. k \<noteq> n \<longrightarrow> dict_get (groups m') k = dict_get (groups m) k"
    by (simp add: m'_def dict_get_filter_other)
  have content: "groups m' = filter (\<lambda>p. fst p \<noteq> n) (groups m)"
    by (simp add: m'_def)
  have flag: "warn_on_duplicate_groups m' = warn_on_duplicate_groups m"
    by (simp add: m'_def)
  have absent: "\<not> dict_contains (groups m) n \<longrightarrow> m' = m"
    by (simp add: m'_def filter_absent)
  have inv: "invar m \<longrightarrow>
      invar m' \<and> dict_values (groups m') = filter (\<lambda>g. name g \<noteq> n) (dict_values (groups m))"
  proof
    assume i: "invar m"
    then have "invar m'"
      using first by (rule remove_group_invar)
    moreover from i have "list_all (\<lambda>p. name (snd p) = fst p) (groups m)"
      by (simp add: invar_def)
    then have "dict_values (groups m') = filter (\<lambda>g. name g \<noteq> n) (dict_values (groups m))"
      unfolding content by (rule values_filter_names)
    ultimately show "invar m' \<and>
        dict_values (groups m') = filter (\<lambda>g. name g \<noteq> n) (dict_values (groups m))"
      by simp
  qed
  from first second gone others content flag absent inv show ?thesis
    by blast
qed

theorem remove_group_total_idempotent_witness:
  "remove_group two_manager ''parent'' = Inr ((), [], child_manager)
   \<and> remove_group child_manager ''parent'' = Inr ((), [], child_manager)
   \<and> get_group child_manager ''parent'' = Inr (None, [], child_manager)
   \<and> dict_get (groups child_manager) ''child'' = dict_get (groups two_manager) ''child''
   \<and> \<not> dict_contains (groups child_manager) ''parent''
   \<and> invar two_manager \<and> invar child_manager
   \<and> dict_values (groups child_manager) = [child_group]"
proof -
  have step: "remove_group two_manager ''parent'' = Inr ((), [], child_manager)"
    by (simp add: remove_group_def dict_delitem_def two_manager_def child_manager_def)
  have inv: "invar two_manager"
    by (simp add: invar_def two_manager_def parent_group_def child_group_def)
  have absent: "\<not> dict_contains (groups child_manager) ''parent''"
    by (simp add: child_manager_def)
  from remove_group_total_idempotent [of two_manager "''parent''"] step
  have a: "remove_group child_manager ''parent'' = Inr ((), [], child_manager)
      \<and> get_group child_manager ''parent'' = Inr (None, [], child_manager)
      \<and> dict_get (groups child_manager) ''child'' = dict_get (groups two_manager) ''child''
      \<and> (invar two_manager \<longrightarrow> invar child_manager)"
    by auto
  from remove_group_total_idempotent [of child_manager "''parent''"] absent
  have b: "remove_group child_manager ''parent'' = Inr ((), [], child_manager)"
    by auto
  have vals: "dict_values (groups child_manager) = [child_group]"
    by (simp add: child_manager_def dict_values_def)
  from step a b inv absent vals show ?thesis
    by simp
qed

section \<open>Lookup\<close>

lemma dict_get_Some_iff: "distinct (map fst d) \<Longrightarrow> dict_get d k = Some v \<longleftrightarrow> (k, v) \<in> set d"
  by (induction d) (auto simp: rev_image_eqI split: if_splits)

lemma dict_get_by_name:
  assumes "distinct (map fst d)" and "list_all (\<lambda>p. name (snd p) = fst p) d"
  shows "dict_get d n = Some g \<longleftrightarrow> g \<in> set (dict_values d) \<and> name g = n"
proof -
  from assms(2) have key: "\<And>k v. (k, v) \<in> set d \<Longrightarrow> name v = k"
    by (auto simp: list_all_iff)
  have "(n, g) \<in> set d \<longleftrightarrow> g \<in> snd ` set d \<and> name g = n"
    using key by force
  with assms(1) show ?thesis
    by (simp add: dict_get_Some_iff dict_values_def)
qed

text \<open>
  C6. \<open>get_group\<close> never raises and returns the manager as it was. In a manager that
  satisfies the invariant, it returns a record exactly when that record is one of the
  listed records and has the name asked for, and it returns \<open>None\<close> exactly when no
  listed record has that name. Every manager that calls on a new manager lead to
  satisfies the invariant.
\<close>

theorem get_group_total_exact:
  "(\<exists>r xs. get_group m n = Inr (r, [], m)
      \<and> list_groups m = Inr (xs, [], m)
      \<and> (invar m \<longrightarrow>
           (\<forall>g. r = Some g \<longleftrightarrow> g \<in> set xs \<and> name g = n) \<and>
           (r = None \<longleftrightarrow> n \<notin> name ` set xs)))
   \<and> (\<exists>rs l m'. run_calls (GroupManager_init w) cs = Inr (rs, l, m') \<and> invar m')"
proof -
  let ?r = "dict_get (groups m) n" and ?xs = "dict_values (groups m)"
  have exact: "(\<forall>g. ?r = Some g \<longleftrightarrow> g \<in> set ?xs \<and> name g = n) \<and>
      (?r = None \<longleftrightarrow> n \<notin> name ` set ?xs)" if "invar m"
  proof -
    from that have some: "\<And>g. ?r = Some g \<longleftrightarrow> g \<in> set ?xs \<and> name g = n"
      by (simp add: invar_def dict_get_by_name)
    have "?r = None \<longleftrightarrow> n \<notin> name ` set ?xs"
    proof
      assume none: "?r = None"
      show "n \<notin> name ` set ?xs"
      proof
        assume "n \<in> name ` set ?xs"
        then obtain g where "g \<in> set ?xs" and "name g = n"
          by auto
        then have "?r = Some g"
          by (simp add: some)
        with none show False by simp
      qed
    next
      assume out: "n \<notin> name ` set ?xs"
      show "?r = None"
      proof (cases ?r)
        case None
        then show ?thesis .
      next
        case (Some g)
        then have "g \<in> set ?xs" and "name g = n"
          by (simp_all add: some)
        with out show ?thesis by auto
      qed
    qed
    with some show ?thesis by simp
  qed
  have "\<exists>r xs. get_group m n = Inr (r, [], m)
      \<and> list_groups m = Inr (xs, [], m)
      \<and> (invar m \<longrightarrow>
           (\<forall>g. r = Some g \<longleftrightarrow> g \<in> set xs \<and> name g = n) \<and>
           (r = None \<longleftrightarrow> n \<notin> name ` set xs))"
  proof (intro exI conjI)
    show "get_group m n = Inr (?r, [], m)"
      by (simp add: get_group_def)
    show "list_groups m = Inr (?xs, [], m)"
      by (simp add: list_groups_def)
    show "invar m \<longrightarrow>
        (\<forall>g. ?r = Some g \<longleftrightarrow> g \<in> set ?xs \<and> name g = n) \<and>
        (?r = None \<longleftrightarrow> n \<notin> name ` set ?xs)"
      using exact by (rule impI)
  qed
  then show ?thesis
    using reachable_invar by (rule conjI)
qed

theorem get_group_total_exact_witness:
  "invar two_manager
   \<and> get_group two_manager ''child'' = Inr (Some child_group, [], two_manager)
   \<and> get_group two_manager ''nonexistent'' = Inr (None, [], two_manager)
   \<and> list_groups two_manager = Inr ([parent_group, child_group], [], two_manager)
   \<and> child_group \<in> set [parent_group, child_group] \<and> name child_group = ''child''
   \<and> ''nonexistent'' \<notin> name ` set [parent_group, child_group]"
proof -
  have inv: "invar two_manager"
    by (simp add: invar_def two_manager_def parent_group_def child_group_def)
  have l: "list_groups two_manager = Inr ([parent_group, child_group], [], two_manager)"
    by (simp add: list_groups_def dict_values_def two_manager_def)
  from get_group_total_exact [of two_manager "''child''" True "[]"] inv l
  have "\<exists>r. get_group two_manager ''child'' = Inr (r, [], two_manager) \<and>
      (\<forall>g. r = Some g \<longleftrightarrow> g \<in> set [parent_group, child_group] \<and> name g = ''child'')"
    by auto
  then have c: "get_group two_manager ''child'' = Inr (Some child_group, [], two_manager)"
    by (auto simp: child_group_def)
  from get_group_total_exact [of two_manager "''nonexistent''" True "[]"] inv l
  have "\<exists>r. get_group two_manager ''nonexistent'' = Inr (r, [], two_manager) \<and>
      (r = None \<longleftrightarrow> ''nonexistent'' \<notin> name ` set [parent_group, child_group])"
    by auto
  then have n: "get_group two_manager ''nonexistent'' = Inr (None, [], two_manager)"
    by (auto simp: child_group_def parent_group_def)
  from inv l c n show ?thesis
    by (simp add: child_group_def parent_group_def)
qed

section \<open>The warning flag\<close>

lemma call_method_flag:
  assumes "groups m = groups m'"
  shows "\<exists>r l l' m1 m1'. call_method m c = Inr (r, l, m1) \<and> call_method m' c = Inr (r, l', m1')
     \<and> groups m1 = groups m1'
     \<and> warn_on_duplicate_groups m1 = warn_on_duplicate_groups m
     \<and> warn_on_duplicate_groups m1' = warn_on_duplicate_groups m'
     \<and> (\<not> warn_on_duplicate_groups m' \<longrightarrow> l' = [])"
  using assms
  by (cases c)
     (simp_all add: returning_def add_group_cases get_group_def remove_group_eq list_groups_def)

lemma run_calls_flag:
  assumes "groups m = groups m'"
  shows "\<exists>rs l l' m2 m2'. run_calls m cs = Inr (rs, l, m2) \<and> run_calls m' cs = Inr (rs, l', m2')
     \<and> groups m2 = groups m2'
     \<and> warn_on_duplicate_groups m2 = warn_on_duplicate_groups m
     \<and> warn_on_duplicate_groups m2' = warn_on_duplicate_groups m'
     \<and> (\<not> warn_on_duplicate_groups m' \<longrightarrow> l' = [])"
  using assms
proof (induction cs arbitrary: m m')
  case Nil
  then show ?case by simp
next
  case (Cons c cs)
  from call_method_flag [OF Cons.prems, of c]
  obtain r l l' m1 m1' where
    s: "call_method m c = Inr (r, l, m1)" "call_method m' c = Inr (r, l', m1')"
    and g: "groups m1 = groups m1'"
    and w: "warn_on_duplicate_groups m1 = warn_on_duplicate_groups m"
      "warn_on_duplicate_groups m1' = warn_on_duplicate_groups m'"
    and q: "\<not> warn_on_duplicate_groups m' \<longrightarrow> l' = []"
    by blast
  from Cons.IH [OF g]
  obtain rs ls ls' m2 m2' where
    r: "run_calls m1 cs = Inr (rs, ls, m2)" "run_calls m1' cs = Inr (rs, ls', m2')"
    and g2: "groups m2 = groups m2'"
    and w2: "warn_on_duplicate_groups m2 = warn_on_duplicate_groups m1"
      "warn_on_duplicate_groups m2' = warn_on_duplicate_groups m1'"
    and q2: "\<not> warn_on_duplicate_groups m1' \<longrightarrow> ls' = []"
    by blast
  from s r g2 w w2 q q2 show ?case
    by simp
qed

text \<open>
  C10. A manager built with the warning flag set and one built with it cleared, given the
  same calls, both run to the end, return the same values call by call, and end with the
  same dict; each keeps its flag, and the one with the flag cleared logs nothing.
\<close>

theorem warn_flag_inert:
  "\<exists>rs l1 l2 m1 m2.
     run_calls (GroupManager_init True) cs = Inr (rs, l1, m1)
     \<and> run_calls (GroupManager_init False) cs = Inr (rs, l2, m2)
     \<and> groups m1 = groups m2
     \<and> warn_on_duplicate_groups m1 \<and> \<not> warn_on_duplicate_groups m2
     \<and> l2 = []"
  using run_calls_flag [of "GroupManager_init True" "GroupManager_init False" cs]
  by (simp add: GroupManager_init_def)

theorem warn_flag_inert_witness:
  "run_calls (GroupManager_init True)
     [AddGroup dup_group, AddGroup dup_group_other, GetGroup ''dup'', ListGroups,
      RemoveGroup ''dup'', ListGroups] =
     Inr ([RGroup dup_group, RGroup dup_group, ROptGroup (Some dup_group), RList [dup_group],
           RNone, RList []],
          [duplicate_warning ''dup''], GroupManager_init True)
   \<and> run_calls (GroupManager_init False)
     [AddGroup dup_group, AddGroup dup_group_other, GetGroup ''dup'', ListGroups,
      RemoveGroup ''dup'', ListGroups] =
     Inr ([RGroup dup_group, RGroup dup_group, ROptGroup (Some dup_group), RList [dup_group],
           RNone, RList []],
          [], GroupManager_init False)"
  using warn_flag_inert
    [of "[AddGroup dup_group, AddGroup dup_group_other, GetGroup ''dup'', ListGroups,
          RemoveGroup ''dup'', ListGroups]"]
  by (simp add: GroupManager_init_def returning_def add_group_def get_group_def
        remove_group_def dict_delitem_def list_groups_def dict_values_def
        dup_group_def dup_group_other_def)

section \<open>Listing follows the specification registry\<close>

lemma dict_get_append:
  "dict_get (d @ e) k = (case dict_get d k of None \<Rightarrow> dict_get e k | Some v \<Rightarrow> Some v)"
  by (induction d) auto

lemma agrees_absent:
  assumes "agrees t i d"
  shows "t k = None \<longleftrightarrow> \<not> dict_contains d k"
proof -
  from assms have "map_option snd (t k) = dict_get d k"
    by (simp add: agrees_def)
  then have "t k = None \<longleftrightarrow> dict_get d k = None"
    by (metis option.map_disc_iff)
  then show ?thesis
    by (simp add: dict_get_None_iff)
qed

lemma agrees_bound: "agrees t i d \<Longrightarrow> t k = Some (j, g) \<Longrightarrow> j < i"
  unfolding agrees_def by blast

lemma agrees_time:
  assumes "agrees t i d" and "p \<in> set d"
  shows "\<exists>j. t (fst p) = Some (j, snd p) \<and> j < i"
proof -
  from assms have "dict_get d (fst p) = Some (snd p)"
    by (simp add: agrees_def dict_get_Some_iff)
  moreover from assms(1) have "map_option snd (t (fst p)) = dict_get d (fst p)"
    by (simp add: agrees_def)
  ultimately obtain j where "t (fst p) = Some (j, snd p)"
    by (cases "t (fst p)") auto
  moreover from assms(1) this have "j < i"
    by (rule agrees_bound)
  ultimately show ?thesis by blast
qed

lemma agrees_later: "agrees t i d \<Longrightarrow> agrees t (Suc i) d"
  unfolding agrees_def by (blast intro: less_SucI)

lemma agrees_add_new:
  assumes a: "agrees t i d" and new: "t (name g) = None"
  shows "agrees (t(name g \<mapsto> (i, g))) (Suc i) (d @ [(name g, g)])"
proof -
  let ?t = "t(name g \<mapsto> (i, g))"
  from a new have absent: "name g \<notin> fst ` set d"
    by (simp add: agrees_absent dict_contains_iff)
  from absent have ne: "\<And>p. p \<in> set d \<Longrightarrow> fst p \<noteq> name g"
    by force
  have same: "map (\<lambda>p. fst (the (?t (fst p)))) d = map (\<lambda>p. fst (the (t (fst p)))) d"
    by (rule map_cong) (simp_all add: ne)
  have before: "\<forall>x \<in> set (map (\<lambda>p. fst (the (t (fst p)))) d). x < i"
    using agrees_time [OF a] by fastforce
  have "distinct (map fst (d @ [(name g, g)]))"
    using a absent by (simp add: agrees_def)
  moreover have "list_all (\<lambda>p. name (snd p) = fst p) (d @ [(name g, g)])"
    using a by (simp add: agrees_def)
  moreover have "\<forall>k. map_option snd (?t k) = dict_get (d @ [(name g, g)]) k"
  proof
    fix k
    from a have "map_option snd (t k) = dict_get d k"
      by (simp add: agrees_def)
    moreover from a new have "dict_get d (name g) = None"
      by (simp add: agrees_absent dict_get_None_iff)
    ultimately show "map_option snd (?t k) = dict_get (d @ [(name g, g)]) k"
      by (auto simp: dict_get_append split: option.splits)
  qed
  moreover have "\<forall>k j h. ?t k = Some (j, h) \<longrightarrow> j < Suc i"
    using agrees_bound [OF a] by (auto intro: less_SucI split: if_splits)
  moreover have "sorted_wrt (<) (map (\<lambda>p. fst (the (?t (fst p)))) (d @ [(name g, g)]))"
  proof -
    from a have "sorted_wrt (<) (map (\<lambda>p. fst (the (t (fst p)))) d)"
      by (simp add: agrees_def)
    with before have srt: "sorted_wrt (<) (map (\<lambda>p. fst (the (t (fst p)))) d @ [i])"
      by (simp add: sorted_wrt_append)
    have "map (\<lambda>p. fst (the (?t (fst p)))) (d @ [(name g, g)]) =
        map (\<lambda>p. fst (the (t (fst p)))) d @ [i]"
      unfolding map_append same by simp
    with srt show ?thesis
      by (simp only:)
  qed
  ultimately show ?thesis
    unfolding agrees_def by blast
qed

lemma agrees_remove:
  assumes a: "agrees t i d"
  shows "agrees (t(n := None)) (Suc i) (filter (\<lambda>p. fst p \<noteq> n) d)"
proof -
  let ?t = "t(n := None)" and ?d = "filter (\<lambda>p. fst p \<noteq> n) d"
  have same: "map (\<lambda>p. fst (the (?t (fst p)))) ?d = map (\<lambda>p. fst (the (t (fst p)))) ?d"
    by (auto intro!: map_cong)
  have "distinct (map fst ?d)"
    using a by (simp add: agrees_def distinct_map_filter)
  moreover have "list_all (\<lambda>p. name (snd p) = fst p) ?d"
    using a by (simp add: agrees_def list_all_iff)
  moreover have "\<forall>k. map_option snd (?t k) = dict_get ?d k"
    using a by (simp add: agrees_def dict_get_filter_same dict_get_filter_other)
  moreover have "\<forall>k j h. ?t k = Some (j, h) \<longrightarrow> j < Suc i"
    using agrees_bound [OF a] by (auto intro: less_SucI split: if_splits)
  moreover have "sorted_wrt (<) (map (\<lambda>p. fst (the (?t (fst p)))) ?d)"
    using a unfolding same by (simp add: agrees_def sorted_wrt_map sorted_wrt_filter)
  ultimately show ?thesis
    unfolding agrees_def by blast
qed

lemma run_calls_agrees:
  "agrees t i (groups m) \<Longrightarrow>
   \<exists>rs l m'. run_calls m cs = Inr (rs, l, m') \<and>
     agrees (spec_registry t i cs) (i + length cs) (groups m')"
proof (induction cs arbitrary: t i m)
  case Nil
  then show ?case by simp
next
  case (Cons c cs)
  have found: "\<exists>r l m1 t1. call_method m c = Inr (r, l, m1) \<and>
      spec_registry t i (c # cs) = spec_registry t1 (Suc i) cs \<and> agrees t1 (Suc i) (groups m1)"
    if "call_method m c = Inr (r, l, m1)"
      and "spec_registry t i (c # cs) = spec_registry t1 (Suc i) cs"
      and "agrees t1 (Suc i) (groups m1)" for r l m1 t1
    using that by blast
  have "\<exists>r l m1 t1. call_method m c = Inr (r, l, m1) \<and>
      spec_registry t i (c # cs) = spec_registry t1 (Suc i) cs \<and> agrees t1 (Suc i) (groups m1)"
  proof (cases c)
    case (AddGroup g)
    show ?thesis
    proof (cases "t (name g) = None")
      case True
      with Cons.prems have "\<not> dict_contains (groups m) (name g)"
        by (simp add: agrees_absent)
      with AddGroup
      have "call_method m c = Inr (RGroup g, [], m\<lparr>groups := groups m @ [(name g, g)]\<rparr>)"
        by (simp add: returning_def add_group_cases)
      moreover from AddGroup True
      have "spec_registry t i (c # cs) = spec_registry (t(name g \<mapsto> (i, g))) (Suc i) cs"
        by simp
      moreover from Cons.prems True
      have "agrees (t(name g \<mapsto> (i, g))) (Suc i)
          (groups (m\<lparr>groups := groups m @ [(name g, g)]\<rparr>))"
        by (simp add: agrees_add_new)
      ultimately show ?thesis
        by (rule found)
    next
      case False
      with Cons.prems have "dict_contains (groups m) (name g)"
        by (simp add: agrees_absent)
      with AddGroup
      have "call_method m c =
          Inr (RGroup (the (dict_get (groups m) (name g))),
               (if warn_on_duplicate_groups m then [duplicate_warning (name g)] else []), m)"
        by (simp add: returning_def add_group_cases)
      moreover from False obtain e where "t (name g) = Some e"
        by blast
      with AddGroup have "spec_registry t i (c # cs) = spec_registry t (Suc i) cs"
        by simp
      moreover from Cons.prems have "agrees t (Suc i) (groups m)"
        by (rule agrees_later)
      ultimately show ?thesis
        by (rule found)
    qed
  next
    case (GetGroup n)
    then have "call_method m c = Inr (ROptGroup (dict_get (groups m) n), [], m)"
      and "spec_registry t i (c # cs) = spec_registry t (Suc i) cs"
      by (simp_all add: returning_def get_group_def)
    then show ?thesis
      using agrees_later [OF Cons.prems] by (rule found)
  next
    case (RemoveGroup n)
    then have "call_method m c =
        Inr (RNone, [], m\<lparr>groups := filter (\<lambda>p. fst p \<noteq> n) (groups m)\<rparr>)"
      and "spec_registry t i (c # cs) = spec_registry (t(n := None)) (Suc i) cs"
      by (simp_all add: returning_def remove_group_eq)
    moreover from Cons.prems have "agrees (t(n := None)) (Suc i)
        (groups (m\<lparr>groups := filter (\<lambda>p. fst p \<noteq> n) (groups m)\<rparr>))"
      by (simp add: agrees_remove)
    ultimately show ?thesis
      by (rule found)
  next
    case ListGroups
    then have "call_method m c = Inr (RList (dict_values (groups m)), [], m)"
      and "spec_registry t i (c # cs) = spec_registry t (Suc i) cs"
      by (simp_all add: returning_def list_groups_def)
    then show ?thesis
      using agrees_later [OF Cons.prems] by (rule found)
  qed
  then obtain r l m1 t1 where step: "call_method m c = Inr (r, l, m1)"
    and spec: "spec_registry t i (c # cs) = spec_registry t1 (Suc i) cs"
    and a1: "agrees t1 (Suc i) (groups m1)"
    by blast
  from Cons.IH [OF a1] obtain rs ls m2 where rest: "run_calls m1 cs = Inr (rs, ls, m2)"
    and a2: "agrees (spec_registry t1 (Suc i) cs) (Suc i + length cs) (groups m2)"
    by blast
  from step rest spec a2 show ?case
    by simp
qed

lemma agrees_init: "agrees Map.empty 0 (groups (GroupManager_init w))"
  by (simp add: agrees_def GroupManager_init_def)

lemma agrees_listing:
  assumes a: "agrees t i d"
  shows "distinct (map name (dict_values d))"
    and "g \<in> set (dict_values d) \<longleftrightarrow> (\<exists>j. t (name g) = Some (j, g))"
    and "sorted_wrt (<) (map (\<lambda>g. fst (the (t (name g)))) (dict_values d))"
proof -
  from a have key: "\<And>p. p \<in> set d \<Longrightarrow> name (snd p) = fst p"
    by (auto simp: agrees_def list_all_iff)
  then have names: "map name (dict_values d) = map fst d"
    by (simp add: dict_values_def)
  with a show "distinct (map name (dict_values d))"
    by (simp add: agrees_def)
  have times: "map (\<lambda>g. fst (the (t (name g)))) (dict_values d) =
      map (\<lambda>p. fst (the (t (fst p)))) d"
    using key by (simp add: dict_values_def)
  with a show "sorted_wrt (<) (map (\<lambda>g. fst (the (t (name g)))) (dict_values d))"
    by (simp add: agrees_def)
  from a have look: "map_option snd (t (name g)) = dict_get d (name g)"
    by (simp add: agrees_def)
  from a have "g \<in> set (dict_values d) \<longleftrightarrow> dict_get d (name g) = Some g"
    by (simp add: agrees_def dict_get_by_name)
  also have "\<dots> \<longleftrightarrow> (\<exists>j. t (name g) = Some (j, g))"
    unfolding look [symmetric] by (cases "t (name g)") auto
  finally show "g \<in> set (dict_values d) \<longleftrightarrow> (\<exists>j. t (name g) = Some (j, g))" .
qed

lemma agrees_sorted:
  assumes a: "agrees t i d"
  shows "sorted_wrt (inserted_before t) (dict_values d)"
proof -
  have "sorted_wrt (\<lambda>g h. fst (the (t (name g))) < fst (the (t (name h)))) (dict_values d)"
    using agrees_listing(3) [OF a] by (simp add: sorted_wrt_map)
  moreover have "inserted_before t g h"
    if "g \<in> set (dict_values d)" and "h \<in> set (dict_values d)"
      and "fst (the (t (name g))) < fst (the (t (name h)))" for g h
  proof -
    from that(1) obtain i where "t (name g) = Some (i, g)"
      using agrees_listing(2) [OF a] by blast
    moreover from that(2) obtain j where "t (name h) = Some (j, h)"
      using agrees_listing(2) [OF a] by blast
    ultimately show ?thesis
      using that(3) by (simp add: inserted_before_def)
  qed
  ultimately show ?thesis
    by (rule sorted_wrt_mono_rel [rotated])
qed

text \<open>
  C2. Whatever calls were made on a new manager, they all return, and \<open>list_groups\<close> on
  the manager they leave returns a list that has no name twice, holds exactly the records
  the specification registry holds after those calls, and is in the order in which those
  records were inserted (each listed record was inserted before all that follow it;
  a name removed and added again counts from its latest insertion). Calling \<open>list_groups\<close>
  twice in a row returns the same list twice and leaves the manager as it was.
\<close>

theorem list_groups_insertion_order:
  "\<exists>rs l m xs.
     run_calls (GroupManager_init w) cs = Inr (rs, l, m)
     \<and> list_groups m = Inr (xs, [], m)
     \<and> run_calls m [ListGroups, ListGroups] = Inr ([RList xs, RList xs], [], m)
     \<and> distinct (map name xs)
     \<and> (\<forall>g. g \<in> set xs \<longleftrightarrow> (\<exists>j. spec_registry Map.empty 0 cs (name g) = Some (j, g)))
     \<and> sorted_wrt (inserted_before (spec_registry Map.empty 0 cs)) xs"
proof -
  from run_calls_agrees [OF agrees_init, of w cs]
  obtain rs l m where run: "run_calls (GroupManager_init w) cs = Inr (rs, l, m)"
    and a: "agrees (spec_registry Map.empty 0 cs) (length cs) (groups m)"
    by auto
  let ?xs = "dict_values (groups m)"
  show ?thesis
  proof (intro exI conjI)
    show "run_calls (GroupManager_init w) cs = Inr (rs, l, m)"
      by (rule run)
    show "list_groups m = Inr (?xs, [], m)"
      by (simp add: list_groups_def)
    show "run_calls m [ListGroups, ListGroups] = Inr ([RList ?xs, RList ?xs], [], m)"
      by (simp add: list_groups_def returning_def)
    show "distinct (map name ?xs)"
      using a by (rule agrees_listing)
    show "\<forall>g. g \<in> set ?xs \<longleftrightarrow> (\<exists>j. spec_registry Map.empty 0 cs (name g) = Some (j, g))"
      using agrees_listing(2) [OF a] by blast
    show "sorted_wrt (inserted_before (spec_registry Map.empty 0 cs)) ?xs"
      using a by (rule agrees_sorted)
  qed
qed

theorem list_groups_insertion_order_witness:
  "run_calls (GroupManager_init True)
     [AddGroup parent_group, AddGroup child_group, RemoveGroup ''parent'', AddGroup parent_group] =
     Inr ([RGroup parent_group, RGroup child_group, RNone, RGroup parent_group], [],
          \<lparr>groups = [(''child'', child_group), (''parent'', parent_group)],
           warn_on_duplicate_groups = True\<rparr>)
   \<and> list_groups
       \<lparr>groups = [(''child'', child_group), (''parent'', parent_group)],
        warn_on_duplicate_groups = True\<rparr> =
     Inr ([child_group, parent_group], [],
          \<lparr>groups = [(''child'', child_group), (''parent'', parent_group)],
           warn_on_duplicate_groups = True\<rparr>)
   \<and> spec_registry Map.empty 0
       [AddGroup parent_group, AddGroup child_group, RemoveGroup ''parent'', AddGroup parent_group]
       ''child'' = Some (Suc 0, child_group)
   \<and> spec_registry Map.empty 0
       [AddGroup parent_group, AddGroup child_group, RemoveGroup ''parent'', AddGroup parent_group]
       ''parent'' = Some (Suc (Suc (Suc 0)), parent_group)
   \<and> inserted_before
       (spec_registry Map.empty 0
          [AddGroup parent_group, AddGroup child_group, RemoveGroup ''parent'',
           AddGroup parent_group])
       child_group parent_group"
  using list_groups_insertion_order
    [of True "[AddGroup parent_group, AddGroup child_group, RemoveGroup ''parent'',
               AddGroup parent_group]"]
  by (simp add: GroupManager_init_def returning_def add_group_def remove_group_def
        dict_delitem_def list_groups_def dict_values_def inserted_before_def
        parent_group_def child_group_def)

section \<open>Records are stored as supplied\<close>

lemma add_group_returns_stored:
  "\<exists>r l m1. add_group m g = Inr (r, l, m1)
     \<and> get_group m1 (name g) = Inr (Some r, [], m1)
     \<and> (r = g \<or> dict_get (groups m) (name g) = Some r)"
  by (cases "dict_get (groups m) (name g)")
     (simp_all add: add_group_def get_group_def dict_get_setitem)

lemma call_method_keeps:
  assumes "dict_get (groups m) k = Some g" and "c \<noteq> RemoveGroup k"
  shows "\<exists>r l m'. call_method m c = Inr (r, l, m') \<and> dict_get (groups m') k = Some g"
proof (cases c)
  case (AddGroup h)
  with assms(1) show ?thesis
    by (cases "dict_get (groups m) (name h)")
       (auto simp: returning_def add_group_def dict_get_setitem)
next
  case (GetGroup n)
  with assms(1) show ?thesis
    by (simp add: returning_def get_group_def)
next
  case (RemoveGroup n)
  with assms show ?thesis
    by (simp add: returning_def remove_group_eq dict_get_filter_other)
next
  case ListGroups
  with assms(1) show ?thesis
    by (simp add: returning_def list_groups_def)
qed

lemma run_calls_keeps:
  "dict_get (groups m) k = Some g \<Longrightarrow> RemoveGroup k \<notin> set cs \<Longrightarrow>
   \<exists>rs l m'. run_calls m cs = Inr (rs, l, m') \<and> dict_get (groups m') k = Some g"
proof (induction cs arbitrary: m)
  case Nil
  then show ?case by simp
next
  case (Cons c cs)
  from Cons.prems have "c \<noteq> RemoveGroup k" and rest: "RemoveGroup k \<notin> set cs"
    by auto
  with Cons.prems(1) obtain r l m1 where step: "call_method m c = Inr (r, l, m1)"
    and kept: "dict_get (groups m1) k = Some g"
    using call_method_keeps by blast
  from Cons.IH [OF kept rest] obtain rs ls m2 where "run_calls m1 cs = Inr (rs, ls, m2)"
    and "dict_get (groups m2) k = Some g"
    by blast
  with step show ?case
    by simp
qed

text \<open>
  C3. After \<open>add_group\<close>, \<open>get_group\<close> of the name returns the record that \<open>add_group\<close>
  returned: the record supplied, or the one stored before under that name. Adding a
  record whose name is not yet registered stores the record as supplied:
  \<open>get_group\<close> of its name returns that very record, so its \<open>meta\<close> is the mapping
  supplied, whatever the values in it are; and it goes on returning it after any further
  calls that do not remove that name. Removing another name leaves the lookup of a
  record as it was. In the scenario of the specification, the child is returned with its
  hierarchy hint before and after the parent is removed.
\<close>

theorem meta_round_trip:
  "(\<exists>r l m1. add_group m g = Inr (r, l, m1)
      \<and> get_group m1 (name g) = Inr (Some r, [], m1)
      \<and> (r = g \<or> dict_get (groups m) (name g) = Some r))
   \<and> (dict_get (groups m) (name g) = None \<longrightarrow>
      (\<exists>m1. add_group m g = Inr (g, [], m1)
         \<and> (\<exists>r. get_group m1 (name g) = Inr (Some r, [], m1) \<and> r = g \<and> meta r = meta g)
         \<and> (RemoveGroup (name g) \<notin> set cs \<longrightarrow>
              (\<exists>rs l m2. run_calls m1 cs = Inr (rs, l, m2)
                 \<and> get_group m2 (name g) = Inr (Some g, [], m2)))))
   \<and> (n \<noteq> name c \<longrightarrow>
        (\<exists>m'. remove_group m0 n = Inr ((), [], m')
           \<and> get_group m' (name c) = Inr (dict_get (groups m0) (name c), [], m')))
   \<and> run_calls (GroupManager_init w)
        [AddGroup parent_group, AddGroup child_group, GetGroup ''child'',
         RemoveGroup ''parent'', GetGroup ''child''] =
      Inr ([RGroup parent_group, RGroup child_group, ROptGroup (Some child_group),
            RNone, ROptGroup (Some child_group)], [],
           \<lparr>groups = [(''child'', child_group)], warn_on_duplicate_groups = w\<rparr>)
   \<and> meta child_group = Some [(GROUPS_META_KEY, PyList [PyStr ''parent''])]"
proof (intro conjI impI)
  show "\<exists>r l m1. add_group m g = Inr (r, l, m1)
      \<and> get_group m1 (name g) = Inr (Some r, [], m1)
      \<and> (r = g \<or> dict_get (groups m) (name g) = Some r)"
    by (rule add_group_returns_stored)
next
  assume new: "dict_get (groups m) (name g) = None"
  let ?m1 = "m\<lparr>groups := dict_setitem (groups m) (name g) g\<rparr>"
  from new have added: "add_group m g = Inr (g, [], ?m1)"
    by (simp add: add_group_def)
  have stored: "dict_get (groups ?m1) (name g) = Some g"
    by (simp add: dict_get_setitem)
  then have got: "\<exists>r. get_group ?m1 (name g) = Inr (Some r, [], ?m1) \<and> r = g \<and> meta r = meta g"
    by (simp add: get_group_def)
  have later: "RemoveGroup (name g) \<notin> set cs \<longrightarrow>
      (\<exists>rs l m2. run_calls ?m1 cs = Inr (rs, l, m2) \<and>
         get_group m2 (name g) = Inr (Some g, [], m2))"
  proof
    assume "RemoveGroup (name g) \<notin> set cs"
    with stored obtain rs l m2 where "run_calls ?m1 cs = Inr (rs, l, m2)"
      and "dict_get (groups m2) (name g) = Some g"
      using run_calls_keeps by blast
    then show "\<exists>rs l m2. run_calls ?m1 cs = Inr (rs, l, m2) \<and>
        get_group m2 (name g) = Inr (Some g, [], m2)"
      by (simp add: get_group_def)
  qed
  from added got later
  show "\<exists>m1. add_group m g = Inr (g, [], m1)
      \<and> (\<exists>r. get_group m1 (name g) = Inr (Some r, [], m1) \<and> r = g \<and> meta r = meta g)
      \<and> (RemoveGroup (name g) \<notin> set cs \<longrightarrow>
           (\<exists>rs l m2. run_calls m1 cs = Inr (rs, l, m2)
              \<and> get_group m2 (name g) = Inr (Some g, [], m2)))"
    by blast
next
  assume "n \<noteq> name c"
  then show "\<exists>m'. remove_group m0 n = Inr ((), [], m')
      \<and> get_group m' (name c) = Inr (dict_get (groups m0) (name c), [], m')"
    by (simp add: remove_group_eq get_group_def dict_get_filter_other)
next
  show "run_calls (GroupManager_init w)
        [AddGroup parent_group, AddGroup child_group, GetGroup ''child'',
         RemoveGroup ''parent'', GetGroup ''child''] =
      Inr ([RGroup parent_group, RGroup child_group, ROptGroup (Some child_group),
            RNone, ROptGroup (Some child_group)], [],
           \<lparr>groups = [(''child'', child_group)], warn_on_duplicate_groups = w\<rparr>)"
    by (simp add: GroupManager_init_def returning_def add_group_def get_group_def
          remove_group_def dict_delitem_def parent_group_def child_group_def)
next
  show "meta child_group = Some [(GROUPS_META_KEY, PyList [PyStr ''parent''])]"
    by (simp add: child_group_def)
qed

theorem meta_round_trip_witness:
  "dict_get (groups (GroupManager_init True)) (name child_group) = None
   \<and> add_group (GroupManager_init True) child_group = Inr (child_group, [], child_manager)
   \<and> get_group child_manager ''child'' = Inr (Some child_group, [], child_manager)
   \<and> RemoveGroup (name child_group) \<notin>
       set [AddGroup parent_group, RemoveGroup ''parent'', ListGroups]
   \<and> (\<exists>rs l m2.
         run_calls child_manager [AddGroup parent_group, RemoveGroup ''parent'', ListGroups] =
           Inr (rs, l, m2)
         \<and> get_group m2 ''child'' = Inr (Some child_group, [], m2))
   \<and> ''parent'' \<noteq> name child_group
   \<and> (\<exists>m'. remove_group two_manager ''parent'' = Inr ((), [], m')
         \<and> get_group m' ''child'' = Inr (Some child_group, [], m'))"
proof -
  have new: "dict_get (groups (GroupManager_init True)) (name child_group) = None"
    by (simp add: GroupManager_init_def)
  have add: "add_group (GroupManager_init True) child_group = Inr (child_group, [], child_manager)"
    by (simp add: GroupManager_init_def add_group_def child_manager_def child_group_def)
  have nm: "name child_group = ''child''"
    by (simp add: child_group_def)
  have norem: "RemoveGroup (name child_group) \<notin>
      set [AddGroup parent_group, RemoveGroup ''parent'', ListGroups]"
    by (simp add: child_group_def)
  have other: "''parent'' \<noteq> name child_group"
    by (simp add: child_group_def)
  have before: "dict_get (groups two_manager) (name child_group) = Some child_group"
    by (simp add: two_manager_def parent_group_def child_group_def)
  note inst = meta_round_trip
    [of "GroupManager_init True" child_group
        "[AddGroup parent_group, RemoveGroup ''parent'', ListGroups]"
        "''parent''" child_group two_manager True]
  from inst new obtain m1 where a1: "add_group (GroupManager_init True) child_group =
      Inr (child_group, [], m1)"
    and g1: "\<exists>r. get_group m1 (name child_group) = Inr (Some r, [], m1) \<and> r = child_group \<and>
        meta r = meta child_group"
    and l1: "RemoveGroup (name child_group) \<notin>
        set [AddGroup parent_group, RemoveGroup ''parent'', ListGroups] \<longrightarrow>
      (\<exists>rs l m2.
         run_calls m1 [AddGroup parent_group, RemoveGroup ''parent'', ListGroups] =
           Inr (rs, l, m2)
         \<and> get_group m2 (name child_group) = Inr (Some child_group, [], m2))"
    by blast
  from a1 add have m1: "m1 = child_manager"
    by simp
  from g1 have got: "get_group child_manager ''child'' = Inr (Some child_group, [], child_manager)"
    unfolding m1 nm by simp
  from l1 norem have run: "\<exists>rs l m2.
      run_calls child_manager [AddGroup parent_group, RemoveGroup ''parent'', ListGroups] =
        Inr (rs, l, m2)
      \<and> get_group m2 ''child'' = Inr (Some child_group, [], m2)"
    unfolding m1 nm by blast
  from inst other have "\<exists>m'. remove_group two_manager ''parent'' = Inr ((), [], m')
      \<and> get_group m' (name child_group) =
          Inr (dict_get (groups two_manager) (name child_group), [], m')"
    by blast
  then have rem: "\<exists>m'. remove_group two_manager ''parent'' = Inr ((), [], m')
      \<and> get_group m' ''child'' = Inr (Some child_group, [], m')"
    unfolding before unfolding nm .
  from new add got norem run other rem show ?thesis
    by (intro conjI)
qed

section \<open>Names\<close>

text \<open>
  A record whose name is the empty string is constructed without error, stored by
  \<open>add_group\<close> and found by \<open>get_group\<close>: it is not rejected.
\<close>

theorem empty_name_stored_counterexample:
  "Group_init (Some '''') None None None None None = Inr unnamed_group
   \<and> name unnamed_group = ''''
   \<and> add_group (GroupManager_init True) unnamed_group =
       Inr (unnamed_group, [],
            \<lparr>groups = [('''', unnamed_group)], warn_on_duplicate_groups = True\<rparr>)
   \<and> get_group \<lparr>groups = [('''', unnamed_group)], warn_on_duplicate_groups = True\<rparr> '''' =
       Inr (Some unnamed_group, [],
            \<lparr>groups = [('''', unnamed_group)], warn_on_duplicate_groups = True\<rparr>)"
  by (simp add: Group_init_def unnamed_group_def GroupManager_init_def add_group_def
        get_group_def)

text \<open>
  C9, amended. Constructing a \<open>Group\<close> without a name is rejected; with a name, any
  string at all (the empty one included), it succeeds, and a new manager stores the
  record under that name, returns it from \<open>get_group\<close> and lists it.
\<close>

theorem group_name_required_any_string:
  "Group_init None t d ic an mt = Inl ValidationError
   \<and> (\<exists>g m. Group_init (Some s) t d ic an mt = Inr g
         \<and> name g = s
         \<and> add_group (GroupManager_init w) g = Inr (g, [], m)
         \<and> get_group m s = Inr (Some g, [], m)
         \<and> list_groups m = Inr ([g], [], m))"
  by (simp add: Group_init_def GroupManager_init_def add_group_def get_group_def
        list_groups_def dict_values_def)

section \<open>The list returned is a new object\<close>

lemma with_manager_dict:
  assumes "objs s (groups_ref self) = Some (DictObj d)"
    and "method \<lparr>groups = d, warn_on_duplicate_groups = warn_ref self\<rparr> = Inr (r, l, m')"
  shows "with_manager s self method =
    Inr (r, l, s\<lparr>objs := (objs s)(groups_ref self \<mapsto> DictObj (groups m'))\<rparr>)"
  using assms by (simp add: with_manager_def)

lemma list_groups_ref_dict:
  assumes "objs s (groups_ref self) = Some (DictObj d)"
  shows "list_groups_ref s self =
    Inr (next_addr s, [],
         s\<lparr>objs := (objs s)(groups_ref self \<mapsto> DictObj d, next_addr s \<mapsto> ListObj (dict_values d)),
           next_addr := Suc (next_addr s)\<rparr>)"
  using assms by (simp add: list_groups_ref_def with_manager_def list_groups_def alloc_def)

lemma new_manager_dict:
  "\<exists>self s'. new_manager s w = (self, s') \<and> objs s' (groups_ref self) = Some (DictObj [])
     \<and> groups_ref self < next_addr s' \<and> warn_ref self = w"
  by (simp add: new_manager_def alloc_def GroupManager_init_def)

lemma call_ref_frame:
  assumes d: "objs s (groups_ref self) = Some (DictObj d)"
    and below: "groups_ref self < next_addr s" "a < next_addr s"
    and other: "a \<noteq> groups_ref self"
  shows "\<exists>s' d'. call_ref s self c = Inr s' \<and> objs s' a = objs s a \<and>
    objs s' (groups_ref self) = Some (DictObj d') \<and> next_addr s \<le> next_addr s'"
proof (cases c)
  case (AddGroup g)
  obtain r l m' where
    "add_group \<lparr>groups = d, warn_on_duplicate_groups = warn_ref self\<rparr> g = Inr (r, l, m')"
    using add_group_stored by blast
  with d have "with_manager s self (\<lambda>m. add_group m g) =
      Inr (r, l, s\<lparr>objs := (objs s)(groups_ref self \<mapsto> DictObj (groups m'))\<rparr>)"
    by (rule with_manager_dict)
  with AddGroup other show ?thesis
    by simp
next
  case (GetGroup n)
  with d other show ?thesis
    by (simp add: with_manager_def get_group_def)
next
  case (RemoveGroup n)
  with d other show ?thesis
    by (simp add: with_manager_def remove_group_eq)
next
  case ListGroups
  with d below other show ?thesis
    by (simp add: list_groups_ref_dict)
qed

lemma run_calls_ref_frame:
  assumes "objs s (groups_ref self) = Some (DictObj d)"
    and "groups_ref self < next_addr s" "a < next_addr s"
    and "a \<noteq> groups_ref self"
  shows "\<exists>s'. run_calls_ref s self cs = Inr s' \<and> objs s' a = objs s a"
  using assms
proof (induction cs arbitrary: s d)
  case Nil
  show ?case by simp
next
  case (Cons c cs)
  from call_ref_frame [OF Cons.prems, of c]
  obtain s1 d1 where step: "call_ref s self c = Inr s1" and same: "objs s1 a = objs s a"
    and d1: "objs s1 (groups_ref self) = Some (DictObj d1)"
    and grow: "next_addr s \<le> next_addr s1"
    by blast
  from grow Cons.prems have "groups_ref self < next_addr s1" and "a < next_addr s1"
    by simp_all
  with d1 have "\<exists>s'. run_calls_ref s1 self cs = Inr s' \<and> objs s' a = objs s1 a"
    using Cons.prems(4) by (rule Cons.IH)
  with step same show ?case
    by simp
qed

lemma list_op_ref_frame:
  "a \<noteq> b \<Longrightarrow> list_op_ref s a x = Inr s' \<Longrightarrow> objs s' b = objs s b"
  by (cases x) (auto split: option.splits obj.splits if_splits)

lemma run_list_ops_frame:
  "a \<noteq> b \<Longrightarrow> objs (snd (run_list_ops s a xs)) b = objs s b"
proof (induction xs arbitrary: s)
  case Nil
  show ?case by simp
next
  case (Cons x xs)
  show ?case
  proof (cases "list_op_ref s a x")
    case (Inl e)
    then show ?thesis by simp
  next
    case (Inr s1)
    with Cons.prems have "objs s1 b = objs s b"
      by (rule list_op_ref_frame)
    with Inr Cons.IH [OF Cons.prems, of s1] show ?thesis
      by simp
  qed
qed

text \<open>
  C8. When the manager's dict is an object of the store, \<open>list_groups\<close> returns a
  reference to a new list object, different from the dict, that holds the values of the
  dict in order. Whatever methods are then called on the manager, they return and the
  list object still holds those values; and whatever the caller appends to or deletes
  from the list, the manager's dict is the one it was.
\<close>

theorem list_groups_snapshot:
  assumes "objs s (groups_ref self) = Some (DictObj d)"
    and "groups_ref self < next_addr s"
  shows "\<exists>a s1. list_groups_ref s self = Inr (a, [], s1)
     \<and> a \<noteq> groups_ref self
     \<and> objs s1 a = Some (ListObj (dict_values d))
     \<and> objs s1 (groups_ref self) = Some (DictObj d)
     \<and> (\<forall>cs. \<exists>s2. run_calls_ref s1 self cs = Inr s2 \<and>
            objs s2 a = Some (ListObj (dict_values d)))
     \<and> (\<forall>ops. objs (snd (run_list_ops s1 a ops)) (groups_ref self) = Some (DictObj d))"
proof -
  let ?a = "next_addr s"
  let ?s1 = "s\<lparr>objs := (objs s)(groups_ref self \<mapsto> DictObj d, ?a \<mapsto> ListObj (dict_values d)),
      next_addr := Suc ?a\<rparr>"
  from assms(2) have ne: "?a \<noteq> groups_ref self"
    by simp
  have listed: "list_groups_ref s self = Inr (?a, [], ?s1)"
    using assms(1) by (rule list_groups_ref_dict)
  have new: "objs ?s1 ?a = Some (ListObj (dict_values d))"
    by simp
  have old: "objs ?s1 (groups_ref self) = Some (DictObj d)"
    using ne by simp
  have later: "\<exists>s2. run_calls_ref ?s1 self cs = Inr s2 \<and>
      objs s2 ?a = Some (ListObj (dict_values d))" for cs
  proof -
    have "groups_ref self < next_addr ?s1" and "?a < next_addr ?s1"
      using assms(2) by simp_all
    with old have "\<exists>s2. run_calls_ref ?s1 self cs = Inr s2 \<and> objs s2 ?a = objs ?s1 ?a"
      using ne by (rule run_calls_ref_frame)
    then show ?thesis
      unfolding new .
  qed
  have caller: "objs (snd (run_list_ops ?s1 ?a ops)) (groups_ref self) = Some (DictObj d)" for ops
    using run_list_ops_frame [OF ne, of ?s1 ops] old by simp
  from listed ne new old later caller show ?thesis
    by blast
qed

theorem list_groups_snapshot_witness:
  "objs two_store (groups_ref two_ref) =
     Some (DictObj [(''parent'', parent_group), (''child'', child_group)])
   \<and> groups_ref two_ref < next_addr two_store
   \<and> (\<exists>s1. list_groups_ref two_store two_ref = Inr (1, [], s1)
         \<and> objs s1 1 = Some (ListObj [parent_group, child_group])
         \<and> (\<exists>s2. run_calls_ref s1 two_ref [RemoveGroup ''parent'', AddGroup dup_group] = Inr s2
               \<and> objs s2 1 = Some (ListObj [parent_group, child_group])
               \<and> objs s2 0 = Some (DictObj [(''child'', child_group), (''dup'', dup_group)]))
         \<and> (\<exists>s3. run_list_ops s1 1 [Delete (- 1), Append dup_group, Delete 5] =
                 (Some IndexError, s3)
               \<and> objs s3 1 = Some (ListObj [parent_group, dup_group])
               \<and> objs s3 0 =
                   Some (DictObj [(''parent'', parent_group), (''child'', child_group)])))"
proof -
  have d: "objs two_store (groups_ref two_ref) =
      Some (DictObj [(''parent'', parent_group), (''child'', child_group)])"
    by (simp add: two_store_def two_ref_def)
  have b: "groups_ref two_ref < next_addr two_store"
    by (simp add: two_store_def two_ref_def)
  from list_groups_snapshot [OF d b]
  obtain a s1 where l: "list_groups_ref two_store two_ref = Inr (a, [], s1)"
    and v: "objs s1 a = Some (ListObj (dict_values [(''parent'', parent_group), (''child'', child_group)]))"
    by blast
  have l': "list_groups_ref two_store two_ref =
      Inr (1, [],
        \<lparr>objs = (\<lambda>_. None)(0 \<mapsto> DictObj [(''parent'', parent_group), (''child'', child_group)],
                 1 \<mapsto> ListObj [parent_group, child_group]),
         next_addr = 2\<rparr>)"
    by (simp add: list_groups_ref_def with_manager_def list_groups_def alloc_def dict_values_def
          two_store_def two_ref_def)
  from l have "Inr (a, [], s1) =
      (Inr (1, [],
        \<lparr>objs = (\<lambda>_. None)(0 \<mapsto> DictObj [(''parent'', parent_group), (''child'', child_group)],
                 1 \<mapsto> ListObj [parent_group, child_group]),
         next_addr = 2\<rparr>) :: py_error + (nat \<times> string list \<times> (unit, unit, pyval) store))"
    unfolding l' by (rule sym)
  then have a: "a = 1" and s1: "s1 =
        \<lparr>objs = (\<lambda>_. None)(0 \<mapsto> DictObj [(''parent'', parent_group), (''child'', child_group)],
                 1 \<mapsto> ListObj [parent_group, child_group]),
         next_addr = 2\<rparr>"
    by (simp_all only: sum.inject prod.inject)
  have calls: "\<exists>s2. run_calls_ref s1 two_ref [RemoveGroup ''parent'', AddGroup dup_group] = Inr s2
      \<and> objs s2 1 = Some (ListObj [parent_group, child_group])
      \<and> objs s2 0 = Some (DictObj [(''child'', child_group), (''dup'', dup_group)])"
    unfolding s1
    by (simp add: with_manager_def remove_group_def dict_delitem_def add_group_def two_ref_def
          parent_group_def child_group_def dup_group_def)
  have ops: "\<exists>s3. run_list_ops s1 1 [Delete (- 1), Append dup_group, Delete 5] =
        (Some IndexError, s3)
      \<and> objs s3 1 = Some (ListObj [parent_group, dup_group])
      \<and> objs s3 0 = Some (DictObj [(''parent'', parent_group), (''child'', child_group)])"
    unfolding s1 by (simp add: position_def remove_at_def)
  from v have "objs s1 1 = Some (ListObj [parent_group, child_group])"
    unfolding a by (simp add: dict_values_def)
  with d b l calls ops show ?thesis
    unfolding a by blast
qed

section \<open>Capabilities and the default page\<close>

lemma dict_contains_setitem: "dict_contains (dict_setitem d k v) k"
  by (induction d) auto

text \<open>
  C4. The groups capability is present in the advertised capabilities exactly when a
  handler for list requests is registered. A new server, with no handler, advertises none
  at all; once a handler is registered the capability is present and its
  \<^verbatim>\<open>list_changed\<close> is the \<^verbatim>\<open>groups_changed\<close> option given.
\<close>

theorem groups_capability_iff_handler:
  "(groups_capability (get_capabilities srv opts) \<noteq> None \<longleftrightarrow>
      dict_contains (request_handlers srv) ListGroupsRequest)
   \<and> groups_capability (get_capabilities srv opts) =
       (if dict_contains (request_handlers srv) ListGroupsRequest
        then Some \<lparr>list_changed = groups_changed opts\<rparr> else None)
   \<and> groups_capability (get_capabilities Server_init opts) = None
   \<and> groups_capability (get_capabilities (register_list_groups srv h) opts) =
       Some \<lparr>list_changed = groups_changed opts\<rparr>"
  by (simp add: get_capabilities_def Server_init_def register_list_groups_def
        dict_contains_setitem)

theorem groups_capability_iff_handler_witness:
  "groups_capability (get_capabilities (Server_init :: unit Server) NotificationOptions_init) = None
   \<and> groups_capability
       (get_capabilities (register_list_groups Server_init ()) NotificationOptions_init) =
       Some \<lparr>list_changed = False\<rparr>
   \<and> groups_capability
       (get_capabilities (register_list_groups Server_init ()) \<lparr>groups_changed = True\<rparr>) =
       Some \<lparr>list_changed = True\<rparr>"
proof -
  have off: "groups_changed NotificationOptions_init = False"
    by (simp add: NotificationOptions_init_def)
  have on: "groups_changed \<lparr>groups_changed = True\<rparr> = True"
    by simp
  from groups_capability_iff_handler [of "Server_init :: unit Server" NotificationOptions_init "()"]
  have "groups_capability (get_capabilities (Server_init :: unit Server) NotificationOptions_init) =
      None"
    and "groups_capability
        (get_capabilities (register_list_groups Server_init ()) NotificationOptions_init) =
      Some \<lparr>list_changed = False\<rparr>"
    unfolding off by blast+
  moreover
  from groups_capability_iff_handler
    [of "Server_init :: unit Server" "\<lparr>groups_changed = True\<rparr>" "()"]
  have "groups_capability
        (get_capabilities (register_list_groups Server_init ()) \<lparr>groups_changed = True\<rparr>) =
      Some \<lparr>list_changed = True\<rparr>"
    unfolding on by blast
  ultimately show ?thesis
    by (intro conjI)
qed

text \<open>
  C7. The default handler, asked with no cursor, returns one page: all records of the
  registry in the registry's order, and no \<^verbatim>\<open>nextCursor\<close>. For an empty registry the
  page is empty; for a registry to which \<open>A\<close> and then \<open>B\<close> (of different names) were
  added, the page is \<open>[A, B]\<close>.
\<close>

theorem default_list_unpaginated:
  "default_list_groups m None = Inr \<lparr>result_groups = dict_values (groups m), nextCursor = None\<rparr>
   \<and> default_list_groups (GroupManager_init w) None = Inr \<lparr>result_groups = [], nextCursor = None\<rparr>
   \<and> (name A \<noteq> name B \<longrightarrow>
        (\<exists>m1 m2. add_group (GroupManager_init w) A = Inr (A, [], m1)
           \<and> add_group m1 B = Inr (B, [], m2)
           \<and> default_list_groups m2 None = Inr \<lparr>result_groups = [A, B], nextCursor = None\<rparr>))"
  by (simp add: default_list_groups_def list_groups_def dict_values_def GroupManager_init_def
        add_group_def)

theorem default_list_unpaginated_witness:
  "name parent_group \<noteq> name child_group
   \<and> add_group (GroupManager_init True) parent_group =
       Inr (parent_group, [],
            \<lparr>groups = [(''parent'', parent_group)], warn_on_duplicate_groups = True\<rparr>)
   \<and> add_group \<lparr>groups = [(''parent'', parent_group)], warn_on_duplicate_groups = True\<rparr>
       child_group = Inr (child_group, [], two_manager)
   \<and> default_list_groups two_manager None =
       Inr \<lparr>result_groups = [parent_group, child_group], nextCursor = None\<rparr>
   \<and> default_list_groups (GroupManager_init True :: (unit, unit, pyval) GroupManager) None =
       Inr \<lparr>result_groups = [], nextCursor = None\<rparr>"
proof -
  have ne: "name parent_group \<noteq> name child_group"
    by (simp add: parent_group_def child_group_def)
  have a1: "add_group (GroupManager_init True) parent_group =
      Inr (parent_group, [],
           \<lparr>groups = [(''parent'', parent_group)], warn_on_duplicate_groups = True\<rparr>)"
    by (simp add: add_group_def GroupManager_init_def parent_group_def)
  have a2: "add_group \<lparr>groups = [(''parent'', parent_group)], warn_on_duplicate_groups = True\<rparr>
      child_group = Inr (child_group, [], two_manager)"
    by (simp add: add_group_def two_manager_def parent_group_def child_group_def)
  from default_list_unpaginated [of two_manager True parent_group child_group] ne
  obtain m1 m2 where b1: "add_group (GroupManager_init True) parent_group = Inr (parent_group, [], m1)"
    and b2: "add_group m1 child_group = Inr (child_group, [], m2)"
    and page: "default_list_groups m2 None =
      Inr \<lparr>result_groups = [parent_group, child_group], nextCursor = None\<rparr>"
    and none: "default_list_groups (GroupManager_init True :: (unit, unit, pyval) GroupManager) None =
      Inr \<lparr>result_groups = [], nextCursor = None\<rparr>"
    by blast
  from a1 b1 have "m1 = \<lparr>groups = [(''parent'', parent_group)], warn_on_duplicate_groups = True\<rparr>"
    by simp
  with a2 b2 have "m2 = two_manager"
    by simp
  with page have "default_list_groups two_manager None =
      Inr \<lparr>result_groups = [parent_group, child_group], nextCursor = None\<rparr>"
    by simp
  with ne a1 a2 none show ?thesis
    by (intro conjI)
qed

end
